theory Spec2Isabelle
  imports Main "HOL-Library.Word" "HOL-Library.Sublist"
begin

section \<open>Decode Ways: the Fibonacci cache and the cluster counter of main.go\<close>

text \<open>
  The program counts the decodings of a digit string under A=1 .. Z=26. It has two
  functions: \<^verbatim>\<open>fib\<close>, a memoised Fibonacci table over the package-level variables
  \<^verbatim>\<open>f\<close> and \<^verbatim>\<open>maxFib\<close>, and \<^verbatim>\<open>getPossibleCombinations\<close>, the single pass over
  the bytes. The embedding below keeps:
  \<^item> bytes as \<open>8 word\<close> and \<^verbatim>\<open>uint64\<close> as \<open>64 word\<close>, so that \<^verbatim>\<open>maxFib++\<close>,
    \<^verbatim>\<open>clusterSize++\<close> and \<^verbatim>\<open>clusterSize+2\<close> wrap as they do in Go;
  \<^item> \<^verbatim>\<open>*big.Int\<close> values as \<open>int\<close>;
  \<^item> the two package-level variables as a record that every function takes and
    returns;
  \<^item> a run-time panic (an index out of range) as the outcome \<open>Panic\<close>;
  \<^item> the table \<^verbatim>\<open>f\<close> as a HOL list. A list has no bound on its length, where a Go
    slice holds at most \<open>2 ^ 63 - 1\<close> elements: the model and the code agree as
    long as the table fits a slice, that is for every index below \<open>2 ^ 63 - 1\<close>,
    and the theorem about \<open>fib\<close> is stated for these indices;
  \<^item> the loop of \<^verbatim>\<open>fib\<close> as a partial function into \<open>option\<close>, where \<open>None\<close> is
    "does not return", because on a list without a bound the guard \<^verbatim>\<open>maxFib <= n\<close>
    never fails for the largest \<^verbatim>\<open>uint64\<close>.
\<close>

subsection \<open>Data\<close>

type_synonym byte = "8 word"
type_synonym uint64 = "64 word"

text \<open>
  \<^verbatim>\<open>var f = []*big.Int{big.NewInt(0), big.NewInt(1)}\<close> and
  \<^verbatim>\<open>var maxFib uint64 = 2\<close>.
\<close>

record cache =
  f :: "int list"
  maxFib :: uint64

definition init_cache :: cache where
  "init_cache = \<lparr>f = [0, 1], maxFib = 2\<rparr>"

datatype 'a outcome = Panic | Returns 'a

text \<open>
  The four errors of \<^verbatim>\<open>getPossibleCombinations\<close>, with the values their messages
  print: "string starts with 0", "string starts with non-digit character",
  "encountered non-digit character at pos. %d" and
  "encountered 0 which can not be attached to %c at pos. %d".
\<close>

datatype error =
    StartsWithZero
  | StartsWithNonDigit
  | NonDigitAtPos nat
  | ZeroNotAttachable byte nat

subsection \<open>fib\<close>

text \<open>
  \<^verbatim>\<open>for ; maxFib <= n; maxFib++ { c := big.Int{}; f = append(f, c.Add(f[maxFib-1], f[maxFib-2])) }\<close>
  Both index expressions are \<^verbatim>\<open>uint64\<close> subtractions; Go panics when an index is not
  below the length of the slice.
\<close>

partial_function (option) fib_loop :: "cache \<Rightarrow> uint64 \<Rightarrow> cache outcome option" where
  "fib_loop c n =
     (if maxFib c \<le> n then
        (if unat (maxFib c - 1) < length (f c) \<and> unat (maxFib c - 2) < length (f c)
         then fib_loop \<lparr>f = f c @ [f c ! unat (maxFib c - 1) + f c ! unat (maxFib c - 2)],
                         maxFib = maxFib c + 1\<rparr> n
         else Some Panic)
      else Some (Returns c))"

declare fib_loop.simps [code]

text \<open>\<^verbatim>\<open>return f[n]\<close> after the loop.\<close>

definition fib :: "cache \<Rightarrow> uint64 \<Rightarrow> (int \<times> cache) outcome option" where
  "fib c n =
     (case fib_loop c n of
        None \<Rightarrow> None
      | Some Panic \<Rightarrow> Some Panic
      | Some (Returns c') \<Rightarrow>
          (if unat n < length (f c') then Some (Returns (f c' ! unat n, c')) else Some Panic))"

subsection \<open>getPossibleCombinations\<close>

text \<open>
  The loop \<^verbatim>\<open>for i, b := range p[1:]\<close>, with the loop variables \<^verbatim>\<open>clusterSize\<close>,
  \<^verbatim>\<open>x\<close>, \<^verbatim>\<open>a\<close> and \<^verbatim>\<open>i\<close> as arguments. It ends with \<open>Inl\<close> of the error
  on an early return and with \<open>Inr\<close> of the final \<^verbatim>\<open>clusterSize\<close> and \<^verbatim>\<open>x\<close> when
  the range is exhausted. The product \<^verbatim>\<open>x.Mul(x, fib(...))\<close> writes to \<^verbatim>\<open>x\<close> only,
  which is a fresh \<^verbatim>\<open>big.Int\<close>: the table entry it reads is left as it is.
\<close>

fun scan :: "cache \<Rightarrow> uint64 \<Rightarrow> int \<Rightarrow> byte \<Rightarrow> nat \<Rightarrow> byte list
    \<Rightarrow> ((error + uint64 \<times> int) \<times> cache) outcome option" where
  "scan c clusterSize x a i [] = Some (Returns (Inr (clusterSize, x), c))"
| "scan c clusterSize x a i (b # bs) =
     (if b < 0x30 \<or> b > 0x39 then Some (Returns (Inl (NonDigitAtPos i), c))
      else if b = 0x30 \<and> a \<noteq> 0x31 \<and> a \<noteq> 0x32
        then Some (Returns (Inl (ZeroNotAttachable a i), c))
      else if (a = 0x31 \<and> b > 0x30) \<or> (a = 0x32 \<and> b > 0x30 \<and> b \<le> 0x36)
        then scan c (clusterSize + 1) x b (i + 1) bs
      else if clusterSize > 0 then
        (case fib c (clusterSize + 2) of
           None \<Rightarrow> None
         | Some Panic \<Rightarrow> Some Panic
         | Some (Returns (y, c')) \<Rightarrow> scan c' 0 (x * y) b (i + 1) bs)
      else scan c clusterSize x b (i + 1) bs)"

text \<open>
  The function itself: \<^verbatim>\<open>a := p[0]\<close> panics on the empty slice; an error return
  carries \<^verbatim>\<open>big.NewInt(0)\<close>; after the loop an open cluster is multiplied in.
\<close>

definition getPossibleCombinations ::
    "cache \<Rightarrow> byte list \<Rightarrow> ((int \<times> error option) \<times> cache) outcome option" where
  "getPossibleCombinations c p =
     (case p of
        [] \<Rightarrow> Some Panic
      | a # rest \<Rightarrow>
          if a = 0x30 then Some (Returns ((0, Some StartsWithZero), c))
          else if a < 0x31 \<or> a > 0x39 then Some (Returns ((0, Some StartsWithNonDigit), c))
          else
            (case scan c 0 1 a 0 rest of
               None \<Rightarrow> None
             | Some Panic \<Rightarrow> Some Panic
             | Some (Returns (Inl e, c')) \<Rightarrow> Some (Returns ((0, Some e), c'))
             | Some (Returns (Inr (clusterSize, x), c')) \<Rightarrow>
                 if clusterSize > 0 then
                   (case fib c' (clusterSize + 2) of
                      None \<Rightarrow> None
                    | Some Panic \<Rightarrow> Some Panic
                    | Some (Returns (y, c'')) \<Rightarrow> Some (Returns ((x * y, None), c'')))
                 else Some (Returns ((x, None), c'))))"

text \<open>The bytes of a string literal, for the concrete inputs.\<close>

definition bytes :: "string \<Rightarrow> byte list" where
  "bytes s = map of_char s"

subsection \<open>The states of the cache\<close>

text \<open>
  The cache states that calls of \<open>fib\<close> produce from the initial table. Only a call
  that returns leaves a state behind.
\<close>

inductive reachable :: "cache \<Rightarrow> bool" where
  initial: "reachable init_cache"
| call: "reachable c \<Longrightarrow> fib c n = Some (Returns (v, c')) \<Longrightarrow> reachable c'"

subsection \<open>What the specification says\<close>

text \<open>The Fibonacci numbers, 0-indexed: F(0)=0, F(1)=1, F(i)=F(i-1)+F(i-2).\<close>

fun fibonacci :: "nat \<Rightarrow> int" where
  "fibonacci 0 = 0"
| "fibonacci (Suc 0) = 1"
| "fibonacci (Suc (Suc n)) = fibonacci (Suc n) + fibonacci n"

text \<open>
  The table invariant of the data model: the frontier is the length of the table,
  the two base values are there, and entry \<open>i\<close> is F(i).
\<close>

definition cache_ok :: "cache \<Rightarrow> bool" where
  "cache_ok c = (unat (maxFib c) = length (f c) \<and> 2 \<le> length (f c)
                 \<and> f c = map fibonacci [0..<length (f c)])"

text \<open>An ASCII digit; an ambiguous pair (the codes 11-19 and 21-26).\<close>

definition is_digit :: "byte \<Rightarrow> bool" where
  "is_digit b = (0x30 \<le> b \<and> b \<le> 0x39)"

definition spec_ambiguous :: "byte \<Rightarrow> byte \<Rightarrow> bool" where
  "spec_ambiguous a b = ((a = 0x31 \<and> 0x31 \<le> b \<and> b \<le> 0x39) \<or> (a = 0x32 \<and> 0x31 \<le> b \<and> b \<le> 0x36))"

text \<open>The adjacent pairs of a sequence, left to right: (p0,p1), (p1,p2), ...\<close>

definition adjacent_pairs :: "'a list \<Rightarrow> ('a \<times> 'a) list" where
  "adjacent_pairs p = zip p (tl p)"

text \<open>
  Validation rule 3 for a later byte \<open>b\<close> with preceding byte \<open>a\<close>: \<open>b\<close> is not a
  digit, or it is a zero that follows neither '1' nor '2'.
\<close>

definition later_violation :: "byte \<Rightarrow> byte \<Rightarrow> bool" where
  "later_violation a b = (\<not> is_digit b \<or> (b = 0x30 \<and> a \<noteq> 0x31 \<and> a \<noteq> 0x32))"

text \<open>
  The validation rules of the specification for a non-empty sequence, as the first
  violation in left-to-right order: the first byte, then the first adjacent pair
  that violates rule 3, with its 0-indexed position in the remainder (the index of
  the pair). The specification leaves the empty sequence open, and so does this
  function.
\<close>

fun spec_validate :: "byte list \<Rightarrow> error option" where
  "spec_validate (a # rest) =
     (if a = 0x30 then Some StartsWithZero
      else if \<not> is_digit a then Some StartsWithNonDigit
      else (case find (\<lambda>(i, a', b). later_violation a' b) (enumerate 0 (adjacent_pairs (a # rest))) of
              None \<Rightarrow> None
            | Some (i, a', b) \<Rightarrow>
                Some (if \<not> is_digit b then NonDigitAtPos i else ZeroNotAttachable a' i)))"

text \<open>
  A decoding of a digit string is a way to cut it into codes of letters: the decimal
  numerals of 1 to 26, that is one digit '1'-'9', or '1' and any digit, or '2' and a
  digit '0'-'6'. Two decodings are distinct when the cuts differ.
\<close>

fun is_code :: "byte list \<Rightarrow> bool" where
  "is_code [a] = (0x31 \<le> a \<and> a \<le> 0x39)"
| "is_code [a, b] = ((a = 0x31 \<and> 0x30 \<le> b \<and> b \<le> 0x39) \<or> (a = 0x32 \<and> 0x30 \<le> b \<and> b \<le> 0x36))"
| "is_code _ = False"

definition decodings :: "byte list \<Rightarrow> byte list list set" where
  "decodings p = {segs. concat segs = p \<and> list_all is_code segs}"

subsection \<open>Definitions for the proofs\<close>

text \<open>
  The loop and the function once more, without the cache: the cluster size is a
  natural number that never wraps and \<open>fibonacci\<close> stands for the call of \<open>fib\<close>.
  The lemmas below show that the code computes exactly this whenever the input is
  shorter than \<open>2 ^ 63\<close> bytes, which every Go slice is.
\<close>

fun scan_pure :: "nat \<Rightarrow> int \<Rightarrow> byte \<Rightarrow> nat \<Rightarrow> byte list \<Rightarrow> error + nat \<times> int" where
  "scan_pure k x a i [] = Inr (k, x)"
| "scan_pure k x a i (b # bs) =
     (if b < 0x30 \<or> b > 0x39 then Inl (NonDigitAtPos i)
      else if b = 0x30 \<and> a \<noteq> 0x31 \<and> a \<noteq> 0x32 then Inl (ZeroNotAttachable a i)
      else if (a = 0x31 \<and> b > 0x30) \<or> (a = 0x32 \<and> b > 0x30 \<and> b \<le> 0x36)
        then scan_pure (k + 1) x b (i + 1) bs
      else if k > 0 then scan_pure 0 (x * fibonacci (k + 2)) b (i + 1) bs
      else scan_pure k x b (i + 1) bs)"

fun count_pure :: "byte list \<Rightarrow> int \<times> error option" where
  "count_pure [] = (0, None)"
| "count_pure (a # rest) =
     (if a = 0x30 then (0, Some StartsWithZero)
      else if a < 0x31 \<or> a > 0x39 then (0, Some StartsWithNonDigit)
      else (case scan_pure 0 1 a 0 rest of
              Inl e \<Rightarrow> (0, Some e)
            | Inr (k, x) \<Rightarrow> (if k > 0 then x * fibonacci (k + 2) else x, None)))"

definition to_uint64 :: "error + nat \<times> int \<Rightarrow> error + uint64 \<times> int" where
  "to_uint64 r = (case r of Inl e \<Rightarrow> Inl e | Inr (k, x) \<Rightarrow> Inr (of_nat k, x))"

text \<open>
  The states of the loop of \<open>fib\<close> from which no index is ever out of range: the
  table has all \<open>2 ^ 64\<close> entries, or the frontier is at least 2 and within it.
\<close>

definition never_out_of_range :: "cache \<Rightarrow> bool" where
  "never_out_of_range c = (2 ^ 64 \<le> length (f c)
      \<or> (2 \<le> unat (maxFib c) \<and> unat (maxFib c) \<le> length (f c)))"

text \<open>All decodings as a list, by the first cut.\<close>

fun decode_list :: "byte list \<Rightarrow> byte list list list" where
  "decode_list [] = [[]]"
| "decode_list [a] = (if is_code [a] then [[[a]]] else [])"
| "decode_list (a # b # r) =
     (if is_code [a] then map ((#) [a]) (decode_list (b # r)) else [])
     @ (if is_code [a, b] then map ((#) [a, b]) (decode_list r) else [])"

section \<open>Arithmetic of 64-bit indices\<close>

lemma unat_lt_2p64: "unat (w :: uint64) < 2 ^ 64"
  using unsigned_less [of w] by simp

lemma unat_pred1: "2 \<le> unat (w :: uint64) \<Longrightarrow> unat (w - 1) = unat w - 1"
  by unat_arith

lemma unat_pred2: "2 \<le> unat (w :: uint64) \<Longrightarrow> unat (w - 2) = unat w - 2"
  by unat_arith

lemma unat_succ:
  assumes "(w :: uint64) \<le> n" "unat n < 2 ^ 64 - 1"
  shows "unat (w + 1) = unat w + 1"
proof -
  have "unat w \<le> unat n"
    using assms(1) by (simp add: word_le_nat_alt)
  then have "unat w + 1 < 2 ^ 64"
    using assms(2) by simp
  then show ?thesis
    by (simp add: unat_word_ariths)
qed

lemma unat_not_max: "(n :: uint64) \<noteq> - 1 \<Longrightarrow> unat n < 2 ^ 64 - 1"
proof -
  assume "n \<noteq> - 1"
  then have "unat n \<noteq> unat (- 1 :: uint64)"
    by (simp add: word_unat_eq_iff)
  moreover have "unat (- 1 :: uint64) = 2 ^ 64 - 1"
    by (simp add: unsigned_minus_1_eq_mask mask_eq_exp_minus_1)
  ultimately show ?thesis
    using unat_lt_2p64 [of n] by simp
qed

lemma unat_of_nat64: "k < 2 ^ 64 \<Longrightarrow> unat (of_nat k :: uint64) = k"
  by (simp add: unsigned_of_nat take_bit_nat_eq_self)

lemma of_nat64_pos: "k < 2 ^ 64 \<Longrightarrow> (0 < (of_nat k :: uint64)) = (0 < k)"
  using unat_of_nat64 [of k] by (simp add: word_less_nat_alt)

lemma unat_of_nat64_plus2:
  assumes "k + 2 < 2 ^ 64"
  shows "unat (of_nat k + 2 :: uint64) = k + 2"
proof -
  have "(of_nat k + 2 :: uint64) = of_nat (k + 2)"
    by simp
  then show ?thesis
    by (simp only: unat_of_nat64 [OF assms])
qed

section \<open>The table invariant and the loop of fib\<close>

lemma cache_ok_init: "cache_ok init_cache"
  by (simp add: cache_ok_def init_cache_def upt_rec)

lemma fibonacci_step: "2 \<le> m \<Longrightarrow> fibonacci (m - 1) + fibonacci (m - 2) = fibonacci m"
  by (cases m rule: fibonacci.cases) auto

lemma cache_ok_nth: "cache_ok c \<Longrightarrow> i < length (f c) \<Longrightarrow> f c ! i = fibonacci i"
proof -
  assume a: "cache_ok c" and i: "i < length (f c)"
  from a have "f c = map fibonacci [0..<length (f c)]"
    unfolding cache_ok_def by blast
  then have "f c ! i = map fibonacci [0..<length (f c)] ! i"
    by simp
  also have "\<dots> = fibonacci i"
    using i by simp
  finally show ?thesis .
qed

lemma cache_ok_step:
  assumes "cache_ok c" "maxFib c \<le> n" "unat n < 2 ^ 64 - 1"
  shows "cache_ok \<lparr>f = f c @ [f c ! unat (maxFib c - 1) + f c ! unat (maxFib c - 2)],
                         maxFib = maxFib c + 1\<rparr>"
proof -
  let ?m = "length (f c)"
  from assms(1) have m: "unat (maxFib c) = ?m" "2 \<le> ?m" and fc: "f c = map fibonacci [0..<?m]"
    by (simp_all add: cache_ok_def)
  have i1: "unat (maxFib c - 1) = ?m - 1" and i2: "unat (maxFib c - 2) = ?m - 2"
    using m by (simp_all add: unat_pred1 unat_pred2)
  have "f c ! (?m - 1) = fibonacci (?m - 1)" "f c ! (?m - 2) = fibonacci (?m - 2)"
    using m(2) by (subst fc, simp)+
  then have new: "f c ! unat (maxFib c - 1) + f c ! unat (maxFib c - 2) = fibonacci ?m"
    using fibonacci_step [OF m(2)] by (simp add: i1 i2)
  have "unat (maxFib c + 1) = ?m + 1"
    using unat_succ [OF assms(2,3)] m by simp
  moreover have "f c @ [fibonacci ?m] = map fibonacci [0..<?m + 1]"
    using fc by simp
  ultimately show ?thesis
    using m(2) by (simp add: cache_ok_def new)
qed

lemma fib_loop_ok:
  assumes "cache_ok c" "unat n < 2 ^ 64 - 1"
  shows "\<exists>c'. fib_loop c n = Some (Returns c') \<and> cache_ok c' \<and> prefix (f c) (f c')
            \<and> unat n < length (f c') \<and> (\<not> maxFib c \<le> n \<longrightarrow> c' = c)"
  using assms(1)
proof (induction "unat n + 1 - unat (maxFib c)" arbitrary: c)
  case 0
  then have nle: "\<not> maxFib c \<le> n"
    by (simp add: word_le_nat_alt)
  then have "fib_loop c n = Some (Returns c)"
    by (subst fib_loop.simps) simp
  moreover have "unat n < length (f c)"
    using nle "0.prems" by (simp add: cache_ok_def word_le_nat_alt)
  ultimately show ?case
    using "0.prems" by simp
next
  case (Suc d)
  let ?c1 = "\<lparr>f = f c @ [f c ! unat (maxFib c - 1) + f c ! unat (maxFib c - 2)],
               maxFib = maxFib c + 1\<rparr>"
  from Suc.hyps(2) have le: "maxFib c \<le> n"
    by (simp add: word_le_nat_alt)
  have m: "unat (maxFib c) = length (f c)" "2 \<le> length (f c)"
    using Suc.prems by (simp_all add: cache_ok_def)
  have idx: "unat (maxFib c - 1) < length (f c)" "unat (maxFib c - 2) < length (f c)"
    using m by (simp_all add: unat_pred1 unat_pred2)
  have ok1: "cache_ok ?c1"
    using cache_ok_step [OF Suc.prems le assms(2)] .
  have u1: "unat (maxFib ?c1) = unat (maxFib c) + 1"
    using unat_succ [OF le assms(2)] by simp
  then have "d = unat n + 1 - unat (maxFib ?c1)"
    using Suc.hyps(2) by simp
  from Suc.hyps(1) [OF this ok1]
  obtain c' where ih: "fib_loop ?c1 n = Some (Returns c')" "cache_ok c'"
      "prefix (f ?c1) (f c')" "unat n < length (f c')"
    by blast
  have "prefix (f c) (f ?c1)"
    by simp
  with ih(3) have "prefix (f c) (f c')"
    by (rule prefix_order.trans [rotated])
  moreover have "fib_loop c n = fib_loop ?c1 n"
    by (subst fib_loop.simps) (simp add: le idx)
  ultimately show ?case
    using ih le by simp
qed

lemma fib_ok:
  assumes "cache_ok c" "unat n < 2 ^ 64 - 1"
  shows "\<exists>c'. fib c n = Some (Returns (fibonacci (unat n), c')) \<and> cache_ok c'
            \<and> prefix (f c) (f c') \<and> (\<not> maxFib c \<le> n \<longrightarrow> c' = c)"
proof -
  from fib_loop_ok [OF assms]
  obtain c' where l: "fib_loop c n = Some (Returns c')" "cache_ok c'" "prefix (f c) (f c')"
      "unat n < length (f c')" "\<not> maxFib c \<le> n \<longrightarrow> c' = c"
    by blast
  have "f c' ! unat n = fibonacci (unat n)"
    using l(2,4) by (rule cache_ok_nth)
  then have "fib c n = Some (Returns (fibonacci (unat n), c'))"
    using l(1,4) by (simp add: fib_def)
  with l show ?thesis by blast
qed



subsection \<open>The largest index in the model\<close>

text \<open>
  On a list without a length bound the loop does not end for the index
  \<open>2 ^ 64 - 1\<close>: the guard holds for every value of \<^verbatim>\<open>maxFib\<close>. (In Go the append
  fails long before, when the table no longer fits a slice.) Either way such a call
  leaves no cache state behind, which is what the reachable states need.
\<close>

lemma never_out_of_range_idx:
  assumes "never_out_of_range c"
  shows "unat (maxFib c - 1) < length (f c) \<and> unat (maxFib c - 2) < length (f c)"
proof (cases "2 ^ 64 \<le> length (f c)")
  case True
  then show ?thesis
    using unat_lt_2p64 [of "maxFib c - 1"] unat_lt_2p64 [of "maxFib c - 2"] by simp
next
  case False
  then have "2 \<le> unat (maxFib c)" "unat (maxFib c) \<le> length (f c)"
    using assms by (simp_all add: never_out_of_range_def)
  moreover have "unat (maxFib c - 1) = unat (maxFib c) - 1" "unat (maxFib c - 2) = unat (maxFib c) - 2"
    using calculation(1) by (rule unat_pred1, rule unat_pred2)
  ultimately show ?thesis
    by arith
qed

lemma never_out_of_range_step:
  assumes "never_out_of_range c"
  shows "never_out_of_range \<lparr>f = f c @ [v], maxFib = maxFib c + 1\<rparr>"
proof (cases "2 ^ 64 \<le> length (f c)")
  case True
  then show ?thesis
    by (simp add: never_out_of_range_def)
next
  case False
  then have m: "2 \<le> unat (maxFib c)" "unat (maxFib c) \<le> length (f c)"
    using assms by (simp_all add: never_out_of_range_def)
  show ?thesis
  proof (cases "unat (maxFib c) + 1 < 2 ^ 64")
    case True
    then have "unat (maxFib c + 1) = unat (maxFib c) + 1"
      by (simp add: unat_word_ariths)
    then show ?thesis
      using m by (simp add: never_out_of_range_def)
  next
    case False
    then have "2 ^ 64 \<le> length (f c) + 1"
      using m(2) by simp
    then show ?thesis
      by (simp add: never_out_of_range_def)
  qed
qed

lemma fib_loop_max_diverges_aux:
  assumes "fib_loop c n = Some r"
  shows "n = - 1 \<longrightarrow> \<not> never_out_of_range c"
proof (rule fib_loop.raw_induct [where P = "\<lambda>c n r. n = - 1 \<longrightarrow> \<not> never_out_of_range c", OF _ assms],
    goal_cases)
  case (1 fib_loop' c n r)
  show ?case
  proof (intro impI notI)
    assume n: "n = - 1" and ok: "never_out_of_range c"
    let ?c1 = "\<lparr>f = f c @ [f c ! unat (maxFib c - 1) + f c ! unat (maxFib c - 2)],
                 maxFib = maxFib c + 1\<rparr>"
    from 1(2) n never_out_of_range_idx [OF ok]
    have "fib_loop' ?c1 n = Some r"
      by simp
    from 1(1) [OF this] n have "\<not> never_out_of_range ?c1"
      by simp
    with never_out_of_range_step [OF ok] show False
      by blast
  qed
qed

lemma cache_ok_never_out_of_range: "cache_ok c \<Longrightarrow> never_out_of_range c"
  by (simp add: cache_ok_def never_out_of_range_def)

lemma fib_loop_max_diverges: "cache_ok c \<Longrightarrow> fib_loop c (- 1) = None"
  using fib_loop_max_diverges_aux [of c "- 1"] cache_ok_never_out_of_range [of c]
  by (cases "fib_loop c (- 1)") auto

lemma fib_max_diverges: "cache_ok c \<Longrightarrow> fib c (- 1) = None"
  by (simp add: fib_def fib_loop_max_diverges)

subsection \<open>Every call appends only\<close>

lemma fib_loop_prefix_aux:
  assumes "fib_loop c n = Some r"
  shows "\<forall>c'. r = Returns c' \<longrightarrow> prefix (f c) (f c')"
proof (rule fib_loop.raw_induct [where P = "\<lambda>c n r. \<forall>c'. r = Returns c' \<longrightarrow> prefix (f c) (f c')", OF _ assms],
    goal_cases)
  case (1 fib_loop' c n r)
  show ?case
  proof (cases "maxFib c \<le> n \<and> unat (maxFib c - 1) < length (f c) \<and> unat (maxFib c - 2) < length (f c)")
    case True
    let ?c1 = "\<lparr>f = f c @ [f c ! unat (maxFib c - 1) + f c ! unat (maxFib c - 2)],
                 maxFib = maxFib c + 1\<rparr>"
    from 1(2) True have "fib_loop' ?c1 n = Some r"
      by simp
    from 1(1) [OF this] have "\<forall>c'. r = Returns c' \<longrightarrow> prefix (f c @ [f c ! unat (maxFib c - 1) + f c ! unat (maxFib c - 2)]) (f c')"
      by simp
    then show ?thesis
      using append_prefixD by blast
  next
    case False
    with 1(2) show ?thesis
      by (auto split: if_splits)
  qed
qed

lemma fib_appends_only:
  assumes "fib c n = Some (Returns (v, c'))"
  shows "prefix (f c) (f c') \<and> (n < maxFib c \<longrightarrow> c' = c)"
proof -
  from assms have l: "fib_loop c n = Some (Returns c')"
    by (auto simp: fib_def split: option.splits outcome.splits if_splits)
  then have "prefix (f c) (f c')"
    using fib_loop_prefix_aux by blast
  moreover have "c' = c" if "n < maxFib c"
  proof -
    from that have "\<not> maxFib c \<le> n"
      by simp
    then have "fib_loop c n = Some (Returns c)"
      by (subst fib_loop.simps) simp
    with l show ?thesis by simp
  qed
  ultimately show ?thesis by blast
qed

lemma reachable_cache_ok: "reachable c \<Longrightarrow> cache_ok c"
proof (induction rule: reachable.induct)
  case initial
  show ?case by (rule cache_ok_init)
next
  case (call c n v c')
  have "n \<noteq> - 1"
    using call.hyps(2) fib_max_diverges [OF call.IH] by auto
  from fib_ok [OF call.IH unat_not_max [OF this]] call.hyps(2)
  show ?case by auto
qed

section \<open>The code computes the cache-free scan\<close>

lemma scan_pure_bound: "scan_pure k x a i bs = Inr (k', x') \<Longrightarrow> k' \<le> k + length bs"
proof (induction bs arbitrary: k x a i)
  case Nil
  then show ?case by simp
next
  case (Cons b bs)
  from Cons.prems show ?case
    by (auto split: if_splits dest!: Cons.IH)
qed

lemma scan_ok:
  assumes "cache_ok c" "k + length bs < 2 ^ 64 - 3"
  shows "\<exists>c'. scan c (of_nat k) x a i bs = Some (Returns (to_uint64 (scan_pure k x a i bs), c'))
            \<and> cache_ok c' \<and> prefix (f c) (f c')"
  using assms
proof (induction bs arbitrary: c k x a i)
  case Nil
  then show ?case
    by (simp add: to_uint64_def)
next
  case (Cons b bs)
  have k64: "k < 2 ^ 64"
    using Cons.prems(2) by simp
  consider (nondigit) "b < 0x30 \<or> b > 0x39"
    | (badzero) "\<not> (b < 0x30 \<or> b > 0x39)" "b = 0x30 \<and> a \<noteq> 0x31 \<and> a \<noteq> 0x32"
    | (inside) "\<not> (b < 0x30 \<or> b > 0x39)" "\<not> (b = 0x30 \<and> a \<noteq> 0x31 \<and> a \<noteq> 0x32)"
        "(a = 0x31 \<and> b > 0x30) \<or> (a = 0x32 \<and> b > 0x30 \<and> b \<le> 0x36)"
    | (flush) "\<not> (b < 0x30 \<or> b > 0x39)" "\<not> (b = 0x30 \<and> a \<noteq> 0x31 \<and> a \<noteq> 0x32)"
        "\<not> ((a = 0x31 \<and> b > 0x30) \<or> (a = 0x32 \<and> b > 0x30 \<and> b \<le> 0x36))" "0 < k"
    | (outside) "\<not> (b < 0x30 \<or> b > 0x39)" "\<not> (b = 0x30 \<and> a \<noteq> 0x31 \<and> a \<noteq> 0x32)"
        "\<not> ((a = 0x31 \<and> b > 0x30) \<or> (a = 0x32 \<and> b > 0x30 \<and> b \<le> 0x36))" "k = 0"
    by blast
  then show ?case
  proof cases
    case nondigit
    then show ?thesis
      using Cons.prems(1) by (simp add: to_uint64_def)
  next
    case badzero
    then show ?thesis
      using Cons.prems(1) by (simp add: to_uint64_def)
  next
    case inside
    have "Suc k + length bs < 2 ^ 64 - 3"
      using Cons.prems(2) by simp
    from Cons.IH [OF Cons.prems(1) this, of x b "i + 1"]
    obtain c' where "scan c (of_nat (Suc k)) x b (i + 1) bs
        = Some (Returns (to_uint64 (scan_pure (Suc k) x b (i + 1) bs), c'))"
        "cache_ok c'" "prefix (f c) (f c')"
      by blast
    moreover have "scan c (of_nat k) x a i (b # bs) = scan c (of_nat k + 1) x b (i + 1) bs"
      using inside by (simp only: scan.simps if_True if_False)
    moreover have "(of_nat k + 1 :: uint64) = of_nat (Suc k)"
      by simp
    moreover have "scan_pure k x a i (b # bs) = scan_pure (k + 1) x b (i + 1) bs"
      using inside by (simp only: scan_pure.simps if_True if_False)
    ultimately show ?thesis
      by auto
  next
    case flush
    have pos: "0 < (of_nat k :: uint64)"
      using flush(4) k64 by (simp add: of_nat64_pos)
    have "k + 2 < 2 ^ 64"
      using Cons.prems(2) by simp
    then have u: "unat (of_nat k + 2 :: uint64) = k + 2"
      by (rule unat_of_nat64_plus2)
    then have "unat (of_nat k + 2 :: uint64) < 2 ^ 64 - 1"
      using Cons.prems(2) by simp
    from fib_ok [OF Cons.prems(1) this] u
    obtain c1 where c1: "fib c (of_nat k + 2) = Some (Returns (fibonacci (k + 2), c1))"
        "cache_ok c1" "prefix (f c) (f c1)"
      by auto
    have "0 + length bs < 2 ^ 64 - 3"
      using Cons.prems(2) by simp
    from Cons.IH [OF c1(2) this, of "x * fibonacci (k + 2)" b "i + 1"]
    obtain c' where c': "scan c1 0 (x * fibonacci (k + 2)) b (i + 1) bs
        = Some (Returns (to_uint64 (scan_pure 0 (x * fibonacci (k + 2)) b (i + 1) bs), c'))"
        "cache_ok c'" "prefix (f c1) (f c')"
      by auto
    have "scan c (of_nat k) x a i (b # bs) = scan c1 0 (x * fibonacci (k + 2)) b (i + 1) bs"
      using flush(1,2,3) pos c1(1)
      by (simp only: scan.simps if_True if_False option.case outcome.case prod.case)
    moreover have "scan_pure k x a i (b # bs) = scan_pure 0 (x * fibonacci (k + 2)) b (i + 1) bs"
      using flush by (simp only: scan_pure.simps if_True if_False)
    moreover have "prefix (f c) (f c')"
      using c1(3) c'(3) by (rule prefix_order.trans)
    ultimately show ?thesis
      using c'(1,2) by auto
  next
    case outside
    have "0 + length bs < 2 ^ 64 - 3"
      using Cons.prems(2) by simp
    from Cons.IH [OF Cons.prems(1) this, of x b "i + 1"]
    obtain c' where "scan c 0 x b (i + 1) bs
        = Some (Returns (to_uint64 (scan_pure 0 x b (i + 1) bs), c'))"
        "cache_ok c'" "prefix (f c) (f c')"
      by auto
    moreover have "scan c (of_nat k) x a i (b # bs) = scan c 0 x b (i + 1) bs"
      using outside(1,2,3) by (simp only: scan.simps if_True if_False outside(4)) simp
    moreover have "scan_pure k x a i (b # bs) = scan_pure 0 x b (i + 1) bs"
      using outside(1,2,3) by (simp only: scan_pure.simps if_True if_False outside(4)) simp
    ultimately show ?thesis
      by auto
  qed
qed

lemma getPossibleCombinations_ok:
  assumes "cache_ok c" "p \<noteq> []" "length p < 2 ^ 63"
  shows "\<exists>c'. getPossibleCombinations c p = Some (Returns (count_pure p, c'))
            \<and> cache_ok c' \<and> prefix (f c) (f c')"
proof -
  from assms(2) obtain a rest where p: "p = a # rest"
    by (cases p) auto
  show ?thesis
  proof (cases "a = 0x30 \<or> a < 0x31 \<or> a > 0x39")
    case True
    then show ?thesis
      using assms(1) by (auto simp: p getPossibleCombinations_def)
  next
    case False
    have "0 + length rest < 2 ^ 64 - 3"
      using assms(3) by (simp add: p)
    from scan_ok [OF assms(1) this, of 1 a 0]
    obtain c1 where c1: "scan c 0 1 a 0 rest = Some (Returns (to_uint64 (scan_pure 0 1 a 0 rest), c1))"
        "cache_ok c1" "prefix (f c) (f c1)"
      by auto
    show ?thesis
    proof (cases "scan_pure 0 1 a 0 rest")
      case (Inl e)
      then show ?thesis
        using False c1 by (auto simp: p getPossibleCombinations_def to_uint64_def)
    next
      case (Inr kx)
      obtain k x where kx: "kx = (k, x)"
        by (cases kx) auto
      from scan_pure_bound [of 0 1 a 0 rest k x] Inr kx have kb: "k \<le> length rest"
        by simp
      show ?thesis
      proof (cases "0 < k")
        case True
        have k64: "k < 2 ^ 64"
          using kb assms(3) by (simp add: p)
        have pos: "0 < (of_nat k :: uint64)"
          using True k64 by (simp add: of_nat64_pos)
        have "k + 2 < 2 ^ 64"
          using kb assms(3) by (simp add: p)
        then have u: "unat (of_nat k + 2 :: uint64) = k + 2"
          by (rule unat_of_nat64_plus2)
        then have "unat (of_nat k + 2 :: uint64) < 2 ^ 64 - 1"
          using kb assms(3) by (simp add: p)
        from fib_ok [OF c1(2) this] u
        obtain c2 where c2: "fib c1 (of_nat k + 2) = Some (Returns (fibonacci (k + 2), c2))"
            "cache_ok c2" "prefix (f c1) (f c2)"
          by auto
        have "prefix (f c) (f c2)"
          using c1(3) c2(3) by (rule prefix_order.trans)
        then show ?thesis
          using False True c1(1) c2(1,2) pos Inr kx
          by (auto simp: p getPossibleCombinations_def to_uint64_def)
      next
        case False2: False
        then show ?thesis
          using False c1 Inr kx by (auto simp: p getPossibleCombinations_def to_uint64_def)
      qed
    qed
  qed
qed


section \<open>The Fibonacci cache\<close>



text \<open>
  C4. In every state reachable by any sequence of \<open>fib\<close> calls the table has its two
  base entries, \<open>table[0] = 0\<close> and \<open>table[1] = 1\<close>, its length is the frontier
  \<^verbatim>\<open>maxFib\<close>, and \<open>table[i] = table[i-1] + table[i-2]\<close> for all \<open>2 \<le> i < length\<close>.
  Every call of \<open>fib\<close> that returns leaves a reachable state whose table extends
  the old one (the old table is a prefix of the new one: entries are neither
  changed nor removed), and a call with \<open>n\<close> below the frontier changes nothing.
\<close>

theorem cache_table_invariant:
  assumes "reachable c"
  shows "length (f c) = unat (maxFib c) \<and> 2 \<le> length (f c) \<and> f c ! 0 = 0 \<and> f c ! 1 = 1
      \<and> (\<forall>i. 2 \<le> i \<and> i < length (f c) \<longrightarrow> f c ! i = f c ! (i - 1) + f c ! (i - 2))
      \<and> (\<forall>n v c'. fib c n = Some (Returns (v, c'))
            \<longrightarrow> reachable c' \<and> prefix (f c) (f c') \<and> (n < maxFib c \<longrightarrow> c' = c))"
proof -
  have ok: "cache_ok c"
    using assms by (rule reachable_cache_ok)
  then have len: "length (f c) = unat (maxFib c)" "2 \<le> length (f c)"
    by (simp_all add: cache_ok_def)
  have "0 < length (f c)" "1 < length (f c)"
    using len(2) by arith+
  then have "f c ! 0 = fibonacci 0" "f c ! 1 = fibonacci 1"
    by (simp_all only: cache_ok_nth [OF ok])
  then have base: "f c ! 0 = 0" "f c ! 1 = 1"
    by simp_all
  have rec: "f c ! i = f c ! (i - 1) + f c ! (i - 2)" if "2 \<le> i" "i < length (f c)" for i
  proof -
    have "f c ! i = fibonacci i" "f c ! (i - 1) = fibonacci (i - 1)" "f c ! (i - 2) = fibonacci (i - 2)"
      using that by (simp_all add: cache_ok_nth [OF ok])
    then show ?thesis
      using fibonacci_step [OF that(1)] by simp
  qed
  have grow: "reachable c' \<and> prefix (f c) (f c') \<and> (n < maxFib c \<longrightarrow> c' = c)"
    if "fib c n = Some (Returns (v, c'))" for n v c'
    using fib_appends_only [OF that] reachable.call [OF assms that] by simp
  from len base rec grow show ?thesis
    by blast
qed

text \<open>The initial state and the call \<open>fib 3\<close> from it.\<close>

theorem cache_table_invariant_witness:
  "reachable init_cache \<and> length (f init_cache) = unat (maxFib init_cache)
     \<and> f init_cache ! 0 = 0 \<and> f init_cache ! 1 = 1
     \<and> fib init_cache 3 = Some (Returns (2, \<lparr>f = [0, 1, 1, 2], maxFib = 4\<rparr>))
     \<and> prefix (f init_cache) [0, 1, 1, 2]
     \<and> reachable \<lparr>f = [0, 1, 1, 2], maxFib = 4\<rparr>"
proof -
  have r: "reachable init_cache"
    by (rule reachable.initial)
  have e: "fib init_cache 3 = Some (Returns (2, \<lparr>f = [0, 1, 1, 2], maxFib = 4\<rparr>))"
    by code_simp
  from cache_table_invariant [OF r]
  have g: "reachable c' \<and> prefix (f init_cache) (f c')"
    if "fib init_cache n = Some (Returns (v, c'))" for n v c'
    using that by blast
  from cache_table_invariant [OF r] g [OF e] e r show ?thesis
    by simp
qed

section \<open>getPossibleCombinations\<close>

text \<open>
  C10. On a non-empty input (a Go slice, so shorter than \<open>2 ^ 63\<close> bytes), from any
  reachable cache state, \<open>getPossibleCombinations\<close> returns: none of its index
  accesses (\<^verbatim>\<open>p[0]\<close>, \<^verbatim>\<open>f[maxFib-1]\<close>, \<^verbatim>\<open>f[maxFib-2]\<close>, \<^verbatim>\<open>f[n]\<close>) is out of range.
  On the empty input it reads \<^verbatim>\<open>p[0]\<close> first, which is out of range: it panics and
  returns no validation error.
\<close>

theorem index_accesses_in_bounds:
  "(reachable c \<longrightarrow> p \<noteq> [] \<longrightarrow> length p < 2 ^ 63
       \<longrightarrow> (\<exists>r c'. getPossibleCombinations c p = Some (Returns (r, c'))))
     \<and> getPossibleCombinations c [] = Some Panic"
  using getPossibleCombinations_ok [OF reachable_cache_ok, of c p]
  by (auto simp: getPossibleCombinations_def)

text \<open>The input "30" in the initial state, and the empty input.\<close>

theorem index_accesses_in_bounds_witness:
  "reachable init_cache \<and> bytes ''30'' \<noteq> [] \<and> length (bytes ''30'') < 2 ^ 63
     \<and> (\<exists>r c'. getPossibleCombinations init_cache (bytes ''30'') = Some (Returns (r, c')))
     \<and> getPossibleCombinations init_cache [] = Some Panic"
  using index_accesses_in_bounds [of init_cache "bytes ''30''"] reachable.initial
  by (simp add: bytes_def)

text \<open>
  C9. On the same non-empty input, \<open>getPossibleCombinations\<close> returns the same value
  and the same error from any two reachable cache states \<open>c\<close> and \<open>d\<close>, and again
  from the state \<open>c'\<close> that the first call leaves behind: the result does not
  depend on the cache. The input is not mutated: the function only reads \<^verbatim>\<open>p\<close>
  (it has no assignment to an element of \<^verbatim>\<open>p\<close>), which is why the embedding takes the
  bytes as a value and returns no new byte sequence.
\<close>

theorem same_result_in_every_cache_state:
  assumes "reachable c" "reachable d" "p \<noteq> []" "length p < 2 ^ 63"
  shows "\<exists>r c' d'. getPossibleCombinations c p = Some (Returns (r, c'))
           \<and> getPossibleCombinations d p = Some (Returns (r, d'))
           \<and> (\<exists>c''. getPossibleCombinations c' p = Some (Returns (r, c'')))"
proof -
  from getPossibleCombinations_ok [OF reachable_cache_ok [OF assms(1)] assms(3,4)]
  obtain c' where c': "getPossibleCombinations c p = Some (Returns (count_pure p, c'))" "cache_ok c'"
    by blast
  from getPossibleCombinations_ok [OF reachable_cache_ok [OF assms(2)] assms(3,4)]
  obtain d' where d': "getPossibleCombinations d p = Some (Returns (count_pure p, d'))"
    by blast
  from getPossibleCombinations_ok [OF c'(2) assms(3,4)]
  obtain c'' where "getPossibleCombinations c' p = Some (Returns (count_pure p, c''))"
    by blast
  with c' d' show ?thesis
    by blast
qed

text \<open>The input "226" in the initial state and in the state left by \<open>fib 5\<close>.\<close>

theorem same_result_in_every_cache_state_witness:
  "reachable init_cache \<and> reachable \<lparr>f = [0, 1, 1, 2, 3, 5], maxFib = 6\<rparr>
     \<and> bytes ''226'' \<noteq> [] \<and> length (bytes ''226'') < 2 ^ 63
     \<and> (\<exists>r c' d'. getPossibleCombinations init_cache (bytes ''226'') = Some (Returns (r, c'))
           \<and> getPossibleCombinations \<lparr>f = [0, 1, 1, 2, 3, 5], maxFib = 6\<rparr> (bytes ''226'') = Some (Returns (r, d'))
           \<and> (\<exists>c''. getPossibleCombinations c' (bytes ''226'') = Some (Returns (r, c''))))"
proof -
  have r: "reachable init_cache"
    by (rule reachable.initial)
  have "fib init_cache 5 = Some (Returns (5, \<lparr>f = [0, 1, 1, 2, 3, 5], maxFib = 6\<rparr>))"
    by code_simp
  from reachable.call [OF r this] have d: "reachable \<lparr>f = [0, 1, 1, 2, 3, 5], maxFib = 6\<rparr>" .
  have n: "bytes ''226'' \<noteq> []" and l: "length (bytes ''226'') < 2 ^ 63"
    by (simp_all add: bytes_def)
  from same_result_in_every_cache_state [OF r d n l] r d n l show ?thesis
    by blast
qed

section \<open>Concrete inputs and runs of ones\<close>

lemma length_bytes: "length (bytes s) = length s"
  by (simp add: bytes_def)

lemma gpc_value:
  assumes "reachable c" "p \<noteq> []" "length p < 2 ^ 63" "count_pure p = r"
  shows "\<exists>c'. getPossibleCombinations c p = Some (Returns (r, c'))"
  using getPossibleCombinations_ok [OF reachable_cache_ok [OF assms(1)] assms(2,3)] assms(4)
  by auto

lemma count_pure_226: "count_pure (bytes ''226'') = (3, None)"
  by code_simp

lemma count_pure_111: "count_pure (bytes ''111'') = (3, None)"
  by code_simp

lemma count_pure_twelve_ones: "count_pure (bytes ''111111111111'') = (233, None)"
  by code_simp

lemma fibonacci_13: "fibonacci 13 = 233"
  by code_simp

text \<open>
  C8. From any reachable cache state, \<open>getPossibleCombinations\<close> returns 3 for "226",
  3 for "111" (the cluster that runs to the end of the input is multiplied in after
  the loop), and \<open>fibonacci 13 = 233\<close> for twelve consecutive '1' characters.
\<close>

theorem concrete_counts:
  assumes "reachable c"
  shows "(\<exists>c'. getPossibleCombinations c (bytes ''226'') = Some (Returns ((3, None), c')))
       \<and> (\<exists>c'. getPossibleCombinations c (bytes ''111'') = Some (Returns ((3, None), c')))
       \<and> (\<exists>c'. getPossibleCombinations c (bytes ''111111111111'') = Some (Returns ((fibonacci 13, None), c')))
       \<and> fibonacci 13 = 233"
proof -
  have "\<exists>c'. getPossibleCombinations c (bytes ''226'') = Some (Returns ((3, None), c'))"
    by (rule gpc_value [OF assms _ _ count_pure_226]) (simp_all add: bytes_def)
  moreover have "\<exists>c'. getPossibleCombinations c (bytes ''111'') = Some (Returns ((3, None), c'))"
    by (rule gpc_value [OF assms _ _ count_pure_111]) (simp_all add: bytes_def)
  moreover have "\<exists>c'. getPossibleCombinations c (bytes ''111111111111'') = Some (Returns ((233, None), c'))"
    by (rule gpc_value [OF assms _ _ count_pure_twelve_ones]) (simp_all add: bytes_def)
  ultimately show ?thesis
    by (simp add: fibonacci_13)
qed

text \<open>
  The three inputs in the initial cache state.
\<close>

theorem concrete_counts_witness:
  "reachable init_cache
     \<and> (\<exists>c'. getPossibleCombinations init_cache (bytes ''226'') = Some (Returns ((3, None), c')))
     \<and> (\<exists>c'. getPossibleCombinations init_cache (bytes ''111'') = Some (Returns ((3, None), c')))
     \<and> (\<exists>c'. getPossibleCombinations init_cache (bytes ''111111111111'') = Some (Returns ((233, None), c')))"
proof -
  from concrete_counts [OF reachable.initial]
  obtain c' where "getPossibleCombinations init_cache (bytes ''111111111111'')
      = Some (Returns ((fibonacci 13, None), c'))" and "fibonacci 13 = 233"
    by blast
  then have "\<exists>c'. getPossibleCombinations init_cache (bytes ''111111111111'')
      = Some (Returns ((233, None), c'))"
    by simp
  with concrete_counts [OF reachable.initial] reachable.initial show ?thesis
    by blast
qed

lemma scan_pure_ones:
  "scan_pure k x 0x31 i (replicate m 0x31) = Inr (k + m, x)"
  by (induction m arbitrary: k i) simp_all

lemma count_pure_ones: "count_pure (replicate (Suc m) 0x31) = (fibonacci (Suc m + 1), None)"
proof -
  have "count_pure (replicate (Suc m) 0x31) = (if 0 < m then 1 * fibonacci (m + 2) else 1, None)"
    by (simp add: scan_pure_ones)
  moreover have "(if 0 < m then 1 * fibonacci (m + 2) else 1) = fibonacci (Suc m + 1)"
    by (cases m) simp_all
  ultimately show ?thesis
    by simp
qed

lemma bytes_ones:
  "bytes ''1'' = replicate 1 0x31" "bytes ''11'' = replicate 2 0x31" "bytes ''111'' = replicate 3 0x31"
  "bytes ''1111'' = replicate 4 0x31" "bytes ''11111'' = replicate 5 0x31"
  by (simp_all add: bytes_def eval_nat_numeral)

lemma gpc_ones:
  assumes "reachable c" "1 \<le> n" "n < 2 ^ 63"
  shows "\<exists>c'. getPossibleCombinations c (replicate n 0x31) = Some (Returns ((fibonacci (n + 1), None), c'))"
proof -
  from assms(2) obtain m where n: "n = Suc m"
    by (cases n) auto
  show ?thesis
    unfolding n
    by (rule gpc_value [OF assms(1) _ _ count_pure_ones]) (use assms(3) n in simp_all)
qed

text \<open>
  C6. For every \<open>n \<ge> 1\<close> (below \<open>2 ^ 63\<close>, as the length of a Go slice is), from any
  reachable cache state, \<open>getPossibleCombinations\<close> on \<open>n\<close> consecutive '1' bytes
  returns \<open>fibonacci (n + 1)\<close> under the convention F(0)=0, F(1)=1; concretely "1"
  gives 1, "11" gives 2, "111" gives 3, "1111" gives 5 and "11111" gives 8.
\<close>

theorem ones_give_fibonacci:
  assumes "reachable c" "1 \<le> n" "n < 2 ^ 63"
  shows "(\<exists>c'. getPossibleCombinations c (replicate n 0x31) = Some (Returns ((fibonacci (n + 1), None), c')))
       \<and> (\<exists>c'. getPossibleCombinations c (bytes ''1'') = Some (Returns ((1, None), c')))
       \<and> (\<exists>c'. getPossibleCombinations c (bytes ''11'') = Some (Returns ((2, None), c')))
       \<and> (\<exists>c'. getPossibleCombinations c (bytes ''111'') = Some (Returns ((3, None), c')))
       \<and> (\<exists>c'. getPossibleCombinations c (bytes ''1111'') = Some (Returns ((5, None), c')))
       \<and> (\<exists>c'. getPossibleCombinations c (bytes ''11111'') = Some (Returns ((8, None), c')))"
proof -
  have f: "fibonacci (1 + 1) = 1" "fibonacci (2 + 1) = 2" "fibonacci (3 + 1) = 3"
      "fibonacci (4 + 1) = 5" "fibonacci (5 + 1) = 8"
    by code_simp+
  show ?thesis
    using gpc_ones [OF assms] gpc_ones [OF assms(1), of 1] gpc_ones [OF assms(1), of 2]
      gpc_ones [OF assms(1), of 3] gpc_ones [OF assms(1), of 4] gpc_ones [OF assms(1), of 5]
    unfolding bytes_ones f by simp
qed

text \<open>
  Seven ones in the initial cache state: F(8) = 21.
\<close>

theorem ones_give_fibonacci_witness:
  "reachable init_cache \<and> (1 :: nat) \<le> 7 \<and> (7 :: nat) < 2 ^ 63
     \<and> (\<exists>c'. getPossibleCombinations init_cache (replicate 7 0x31) = Some (Returns ((21, None), c')))"
proof -
  have "fibonacci (7 + 1) = 21"
    by code_simp
  then show ?thesis
    using ones_give_fibonacci [OF reachable.initial, of 7] reachable.initial by simp
qed

section \<open>The scan in the words of the specification\<close>

lemma byte_gt_0x30: "((0x30 :: byte) < b) = (0x31 \<le> b)"
  by unat_arith

lemma byte_lt_0x31: "(b < (0x31 :: byte)) = (b \<le> 0x30)"
  by unat_arith

lemma nondigit_iff: "(b < 0x30 \<or> b > 0x39) = (\<not> is_digit b)"
  by (auto simp: is_digit_def)

lemma badzero_iff:
  "(\<not> (b < 0x30 \<or> b > 0x39) \<and> b = 0x30 \<and> a \<noteq> 0x31 \<and> a \<noteq> 0x32)
     = (is_digit b \<and> later_violation a b)"
  by (auto simp: is_digit_def later_violation_def)

lemma code_ambiguous_iff:
  "is_digit b \<Longrightarrow> ((a = 0x31 \<and> b > 0x30) \<or> (a = 0x32 \<and> b > 0x30 \<and> b \<le> 0x36)) = spec_ambiguous a b"
  by (auto simp: is_digit_def spec_ambiguous_def byte_gt_0x30)

lemma first_byte_iff: "a \<noteq> 0x30 \<Longrightarrow> (a < 0x31 \<or> a > 0x39) = (\<not> is_digit a)"
  by (auto simp: is_digit_def byte_lt_0x31)

lemma scan_pure_step:
  "scan_pure k x a i (b # bs) =
     (if later_violation a b
        then Inl (if \<not> is_digit b then NonDigitAtPos i else ZeroNotAttachable a i)
      else if spec_ambiguous a b then scan_pure (k + 1) x b (i + 1) bs
      else scan_pure 0 (if 0 < k then x * fibonacci (k + 2) else x) b (i + 1) bs)"
proof (cases "is_digit b")
  case False
  then show ?thesis
    by (simp add: nondigit_iff later_violation_def)
next
  case True
  then have nd: "\<not> (b < 0x30 \<or> b > 0x39)"
    by (simp add: nondigit_iff)
  show ?thesis
  proof (cases "later_violation a b")
    case True
    with \<open>is_digit b\<close> have "b = 0x30 \<and> a \<noteq> 0x31 \<and> a \<noteq> 0x32"
      by (simp add: later_violation_def)
    with nd True \<open>is_digit b\<close> show ?thesis
      by (simp only: scan_pure.simps if_True if_False simp_thms)
  next
    case False
    with \<open>is_digit b\<close> have nz: "\<not> (b = 0x30 \<and> a \<noteq> 0x31 \<and> a \<noteq> 0x32)"
      by (simp add: later_violation_def)
    show ?thesis
      using nd nz False code_ambiguous_iff [OF \<open>is_digit b\<close>, of a]
      by (simp only: scan_pure.simps if_True if_False simp_thms split: if_splits) simp
  qed
qed

lemma adjacent_pairs_Cons2: "adjacent_pairs (a # b # bs) = (a, b) # adjacent_pairs (b # bs)"
  by (simp add: adjacent_pairs_def)

lemma adjacent_pairs_single: "adjacent_pairs [a] = []"
  by (simp add: adjacent_pairs_def)

lemma scan_pure_error:
  "(case find (\<lambda>(j, a', b). later_violation a' b) (enumerate i (adjacent_pairs (a # bs))) of
      None \<Rightarrow> (\<exists>k' x'. scan_pure k x a i bs = Inr (k', x'))
    | Some (j, a', b) \<Rightarrow>
        scan_pure k x a i bs = Inl (if \<not> is_digit b then NonDigitAtPos j else ZeroNotAttachable a' j))"
proof (induction bs arbitrary: a i k x)
  case Nil
  show ?case
    by (simp add: adjacent_pairs_single)
next
  case (Cons b bs)
  show ?case
  proof (cases "later_violation a b")
    case True
    then show ?thesis
      by (simp add: adjacent_pairs_Cons2 scan_pure_step del: scan_pure.simps)
  next
    case False
    then have e: "find (\<lambda>(j, a', b). later_violation a' b) (enumerate i (adjacent_pairs (a # b # bs)))
        = find (\<lambda>(j, a', b). later_violation a' b) (enumerate (Suc i) (adjacent_pairs (b # bs)))"
      by (simp add: adjacent_pairs_Cons2)
    from False obtain k1 x1 where s: "scan_pure k x a i (b # bs) = scan_pure k1 x1 b (Suc i) bs"
      by (cases "spec_ambiguous a b") (simp_all add: scan_pure_step del: scan_pure.simps)
    show ?thesis
      unfolding e s by (rule Cons.IH)
  qed
qed

lemma count_pure_validate:
  "snd (count_pure (a # rest)) = spec_validate (a # rest)
     \<and> (spec_validate (a # rest) \<noteq> None \<longrightarrow> fst (count_pure (a # rest)) = 0)"
proof (cases "a = 0x30")
  case True
  then show ?thesis by simp
next
  case nz: False
  show ?thesis
  proof (cases "is_digit a")
    case False
    then show ?thesis
      using nz first_byte_iff [OF nz] by simp
  next
    case True
    then have fb: "\<not> (a < 0x31 \<or> a > 0x39)"
      using first_byte_iff [OF nz] by simp
    show ?thesis
      using scan_pure_error [where i = 0 and a = a and bs = rest and k = 0 and x = 1] nz True fb
      by (auto split: option.splits prod.splits sum.splits)
  qed
qed

section \<open>Validation and inputs without ambiguous pairs\<close>

lemma scan_pure_append_err:
  "scan_pure k x a i bs = Inl e \<Longrightarrow> scan_pure k x a i (bs @ cs) = Inl e"
proof (induction bs arbitrary: k x a i)
  case Nil
  then show ?case by simp
next
  case (Cons b bs)
  from Cons.prems show ?case
    by (auto simp: scan_pure_step simp del: scan_pure.simps split: if_splits intro: Cons.IH)
qed

lemma count_pure_append_err:
  assumes "snd (count_pure (a # rest)) = Some e"
  shows "count_pure ((a # rest) @ q) = (0, Some e)"
proof (cases "a = 0x30 \<or> a < 0x31 \<or> a > 0x39")
  case True
  with assms show ?thesis
    by (auto split: if_splits)
next
  case False
  with assms have "scan_pure 0 1 a 0 rest = Inl e"
    by (auto split: sum.splits prod.splits)
  then have "scan_pure 0 1 a 0 (rest @ q) = Inl e"
    by (rule scan_pure_append_err)
  with False show ?thesis
    by simp
qed

text \<open>
  C2. For every non-empty input (shorter than \<open>2 ^ 63\<close> bytes), from any reachable
  cache state, \<open>getPossibleCombinations\<close> returns an error exactly when the input is
  invalid, and the error is the one \<open>spec_validate\<close> gives: "starts with 0" for a
  first byte '0', "starts with non-digit" for a first byte that is no digit, and for
  the first adjacent pair that violates rule 3 the non-digit error with the position
  of the pair, or the invalid-zero error with the preceding byte and that position.
  With an error the value returned is 0, never a partial count. The scan stops at
  the error: whatever bytes \<open>q\<close> follow the input, the result is the same error.
\<close>

theorem errors_are_first_violations:
  assumes "reachable c" "p \<noteq> []" "length p < 2 ^ 63"
  shows "(\<exists>v c'. getPossibleCombinations c p = Some (Returns ((v, spec_validate p), c'))
            \<and> (spec_validate p \<noteq> None \<longrightarrow> v = 0))
       \<and> (\<forall>e q. spec_validate p = Some e \<and> length (p @ q) < 2 ^ 63
            \<longrightarrow> (\<exists>c'. getPossibleCombinations c (p @ q) = Some (Returns ((0, Some e), c'))))"
proof -
  from assms(2) obtain a rest where p: "p = a # rest"
    by (cases p) auto
  have cv: "snd (count_pure p) = spec_validate p"
      "spec_validate p \<noteq> None \<longrightarrow> fst (count_pure p) = 0"
    using count_pure_validate [of a rest] by (simp_all add: p)
  have "count_pure p = (fst (count_pure p), spec_validate p)"
    using cv(1) by (metis prod.collapse)
  from gpc_value [OF assms this]
  have one: "\<exists>v c'. getPossibleCombinations c p = Some (Returns ((v, spec_validate p), c'))
            \<and> (spec_validate p \<noteq> None \<longrightarrow> v = 0)"
    using cv(2) by blast
  have two: "\<exists>c'. getPossibleCombinations c (p @ q) = Some (Returns ((0, Some e), c'))"
    if "spec_validate p = Some e" "length (p @ q) < 2 ^ 63" for e q
  proof -
    from that(1) cv(1) have "snd (count_pure (a # rest)) = Some e"
      by (simp add: p)
    then have "count_pure (p @ q) = (0, Some e)"
      unfolding p by (rule count_pure_append_err)
    from gpc_value [OF assms(1) _ that(2) this] assms(2) show ?thesis
      by simp
  qed
  from one two show ?thesis
    by blast
qed

text \<open>
  The input "12a3": the non-digit is at position 1 of the remainder, also when
  "07" follows.
\<close>

theorem errors_are_first_violations_witness:
  "reachable init_cache \<and> bytes ''12a3'' \<noteq> [] \<and> length (bytes ''12a3'') < 2 ^ 63
     \<and> spec_validate (bytes ''12a3'') = Some (NonDigitAtPos 1)
     \<and> length (bytes ''12a3'' @ bytes ''07'') < 2 ^ 63
     \<and> (\<exists>c'. getPossibleCombinations init_cache (bytes ''12a3'')
            = Some (Returns ((0, Some (NonDigitAtPos 1)), c')))
     \<and> (\<exists>c'. getPossibleCombinations init_cache (bytes ''12a3'' @ bytes ''07'')
            = Some (Returns ((0, Some (NonDigitAtPos 1)), c')))"
proof -
  have r: "reachable init_cache"
    by (rule reachable.initial)
  have n: "bytes ''12a3'' \<noteq> []" and l: "length (bytes ''12a3'') < 2 ^ 63"
    and l2: "length (bytes ''12a3'' @ bytes ''07'') < 2 ^ 63"
    by (simp_all add: bytes_def)
  have v: "spec_validate (bytes ''12a3'') = Some (NonDigitAtPos 1)"
    by code_simp
  from errors_are_first_violations [OF r n l] v l2
  have "\<exists>v c'. getPossibleCombinations init_cache (bytes ''12a3'')
            = Some (Returns ((v, Some (NonDigitAtPos 1)), c')) \<and> v = 0"
    and "\<exists>c'. getPossibleCombinations init_cache (bytes ''12a3'' @ bytes ''07'')
            = Some (Returns ((0, Some (NonDigitAtPos 1)), c'))"
    by auto
  with r n l l2 v show ?thesis
    by blast
qed

lemma find_violation_None:
  "(find (\<lambda>(j, a', b). later_violation a' b) (enumerate n ps) = None)
     = list_all (\<lambda>(a', b). \<not> later_violation a' b) ps"
  by (induction ps arbitrary: n) auto

lemma spec_validate_NoneD:
  assumes "spec_validate (a # rest) = None"
  shows "a \<noteq> 0x30" "is_digit a" "\<not> (a < 0x31 \<or> a > 0x39)"
    "list_all (\<lambda>(a', b). \<not> later_violation a' b) (adjacent_pairs (a # rest))"
    "\<exists>k x. scan_pure 0 1 a 0 rest = Inr (k, x)"
proof -
  from assms show nz: "a \<noteq> 0x30" and d: "is_digit a"
    by (auto split: if_splits)
  from first_byte_iff [OF nz] d show "\<not> (a < 0x31 \<or> a > 0x39)"
    by simp
  from assms nz d
  have n: "find (\<lambda>(j, a', b). later_violation a' b) (enumerate 0 (adjacent_pairs (a # rest))) = None"
    by (auto split: option.splits)
  then show "list_all (\<lambda>(a', b). \<not> later_violation a' b) (adjacent_pairs (a # rest))"
    by (simp only: find_violation_None)
  from scan_pure_error [where i = 0 and a = a and bs = rest and k = 0 and x = 1] n
  show "\<exists>k x. scan_pure 0 1 a 0 rest = Inr (k, x)"
    by simp
qed

lemma scan_pure_no_ambiguous:
  assumes "list_all (\<lambda>(a', b). \<not> later_violation a' b) (adjacent_pairs (a # bs))"
    "list_all (\<lambda>(a', b). \<not> spec_ambiguous a' b) (adjacent_pairs (a # bs))"
  shows "scan_pure 0 x a i bs = Inr (0, x)"
  using assms
proof (induction bs arbitrary: a i)
  case Nil
  show ?case by simp
next
  case (Cons b bs)
  from Cons.prems show ?case
    by (simp add: adjacent_pairs_Cons2 scan_pure_step Cons.IH del: scan_pure.simps)
qed

text \<open>
  C7. For every valid non-empty input (shorter than \<open>2 ^ 63\<close> bytes) in which no two
  adjacent digits form an ambiguous pair (11-19 or 21-26), from any reachable cache
  state, \<open>getPossibleCombinations\<close> returns exactly 1.
\<close>

theorem no_ambiguous_pair_gives_one:
  assumes "reachable c" "p \<noteq> []" "length p < 2 ^ 63" "spec_validate p = None"
    "list_all (\<lambda>(a, b). \<not> spec_ambiguous a b) (adjacent_pairs p)"
  shows "\<exists>c'. getPossibleCombinations c p = Some (Returns ((1, None), c'))"
proof -
  from assms(2) obtain a rest where p: "p = a # rest"
    by (cases p) auto
  note v = spec_validate_NoneD [OF assms(4) [unfolded p]]
  have "scan_pure 0 1 a 0 rest = Inr (0, 1)"
    using v(4) assms(5) [unfolded p] by (rule scan_pure_no_ambiguous)
  then have "count_pure p = (1, None)"
    using v(1,3) by (simp add: p)
  from gpc_value [OF assms(1,2,3) this] show ?thesis .
qed

text \<open>
  The input "2710": the pairs 27, 71 and 10 are not ambiguous.
\<close>

theorem no_ambiguous_pair_gives_one_witness:
  "reachable init_cache \<and> bytes ''2710'' \<noteq> [] \<and> length (bytes ''2710'') < 2 ^ 63
     \<and> spec_validate (bytes ''2710'') = None
     \<and> list_all (\<lambda>(a, b). \<not> spec_ambiguous a b) (adjacent_pairs (bytes ''2710''))
     \<and> (\<exists>c'. getPossibleCombinations init_cache (bytes ''2710'') = Some (Returns ((1, None), c')))"
proof -
  have r: "reachable init_cache"
    by (rule reachable.initial)
  have n: "bytes ''2710'' \<noteq> []" and l: "length (bytes ''2710'') < 2 ^ 63"
    by (simp_all add: bytes_def)
  have v: "spec_validate (bytes ''2710'') = None"
    by code_simp
  have a: "list_all (\<lambda>(a, b). \<not> spec_ambiguous a b) (adjacent_pairs (bytes ''2710''))"
    by code_simp
  from no_ambiguous_pair_gives_one [OF r n l v a] r n l v a show ?thesis
    by blast
qed

section \<open>Concatenation across a boundary that is not ambiguous\<close>

lemma scan_pure_append:
  "scan_pure k x a i (bs @ cs) =
     (case scan_pure k x a i bs of
        Inl e \<Rightarrow> Inl e
      | Inr (k', x') \<Rightarrow> scan_pure k' x' (last (a # bs)) (i + length bs) cs)"
proof (induction bs arbitrary: k x a i)
  case Nil
  show ?case by simp
next
  case (Cons b bs)
  show ?case
    by (simp add: scan_pure_step Cons.IH del: scan_pure.simps split: sum.split)
qed

lemma scan_pure_scale:
  "scan_pure k x a j bs = Inr (k', x') \<Longrightarrow> scan_pure k (y * x) a i bs = Inr (k', y * x')"
proof (induction bs arbitrary: k x a i j)
  case Nil
  then show ?case by simp
next
  case (Cons b bs)
  from Cons.prems show ?case
    by (auto simp: scan_pure_step mult.assoc simp del: scan_pure.simps split: if_splits
        dest: Cons.IH)
qed

lemma count_pure_mult:
  assumes "spec_validate (a # sr) = None" "spec_validate (b # tr) = None"
    "\<not> spec_ambiguous (last (a # sr)) b"
  shows "\<exists>x y. count_pure (a # sr) = (x, None) \<and> count_pure (b # tr) = (y, None)
           \<and> count_pure ((a # sr) @ (b # tr)) = (x * y, None)"
proof -
  note va = spec_validate_NoneD [OF assms(1)]
  note vb = spec_validate_NoneD [OF assms(2)]
  from va(5) obtain ks xs where s: "scan_pure 0 1 a 0 sr = Inr (ks, xs)"
    by blast
  from vb(5) obtain kt xt where t: "scan_pure 0 1 b 0 tr = Inr (kt, xt)"
    by blast
  define X where "X = (if 0 < ks then xs * fibonacci (ks + 2) else xs)"
  define Y where "Y = (if 0 < kt then xt * fibonacci (kt + 2) else xt)"
  have cs: "count_pure (a # sr) = (X, None)"
    using va(1,3) s by (simp add: X_def)
  have ct: "count_pure (b # tr) = (Y, None)"
    using vb(1,3) t by (simp add: Y_def)
  have nv: "\<not> later_violation (last (a # sr)) b"
    using vb(1,2) by (simp add: later_violation_def)
  have "scan_pure 0 1 a 0 (sr @ b # tr) = scan_pure ks xs (last (a # sr)) (0 + length sr) (b # tr)"
    by (simp only: scan_pure_append s sum.case prod.case)
  also have "\<dots> = scan_pure 0 (X * 1) b (0 + length sr + 1) tr"
    using nv assms(3) by (simp add: scan_pure_step X_def del: scan_pure.simps last.simps)
  also have "\<dots> = Inr (kt, X * xt)"
    using t by (rule scan_pure_scale)
  finally have "count_pure ((a # sr) @ (b # tr)) = (X * Y, None)"
    using va(1,3) by (simp add: Y_def mult.assoc)
  with cs ct show ?thesis
    by blast
qed

text \<open>
  C5. For non-empty inputs \<open>s\<close> and \<open>t\<close>, each valid, whose concatenation is valid
  (and shorter than \<open>2 ^ 63\<close> bytes) and whose boundary pair (last byte of \<open>s\<close>, first
  byte of \<open>t\<close>) is not ambiguous, the value returned for \<open>s @ t\<close> is the product of
  the values returned for \<open>s\<close> and for \<open>t\<close>, from any reachable cache states.
\<close>

theorem multiplicative_across_boundary:
  assumes "reachable c1" "reachable c2" "reachable c3"
    "s \<noteq> []" "t \<noteq> []" "length (s @ t) < 2 ^ 63"
    "spec_validate s = None" "spec_validate t = None" "spec_validate (s @ t) = None"
    "\<not> spec_ambiguous (last s) (hd t)"
  shows "\<exists>x y c1' c2' c3'.
           getPossibleCombinations c1 s = Some (Returns ((x, None), c1'))
         \<and> getPossibleCombinations c2 t = Some (Returns ((y, None), c2'))
         \<and> getPossibleCombinations c3 (s @ t) = Some (Returns ((x * y, None), c3'))"
proof -
  from assms(4) obtain a sr where s: "s = a # sr"
    by (cases s) auto
  from assms(5) obtain b tr where t: "t = b # tr"
    by (cases t) auto
  from count_pure_mult [of a sr b tr] assms(7,8,10)
  obtain x y where xy: "count_pure s = (x, None)" "count_pure t = (y, None)"
      "count_pure (s @ t) = (x * y, None)"
    unfolding s t by auto
  have ls: "length s < 2 ^ 63" and lt: "length t < 2 ^ 63"
    using assms(6) by simp_all
  have st: "s @ t \<noteq> []"
    using assms(4) by simp
  from gpc_value [OF assms(1,4) ls xy(1)] gpc_value [OF assms(2,5) lt xy(2)]
    gpc_value [OF assms(3) st assms(6) xy(3)]
  show ?thesis
    by blast
qed

text \<open>
  "1213" (5 ways) and "226" (3 ways): the boundary pair 32 is not ambiguous, and
  "1213226" gives 15.
\<close>

theorem multiplicative_across_boundary_witness:
  "reachable init_cache \<and> bytes ''1213'' \<noteq> [] \<and> bytes ''226'' \<noteq> []
     \<and> length (bytes ''1213'' @ bytes ''226'') < 2 ^ 63
     \<and> spec_validate (bytes ''1213'') = None \<and> spec_validate (bytes ''226'') = None
     \<and> spec_validate (bytes ''1213'' @ bytes ''226'') = None
     \<and> \<not> spec_ambiguous (last (bytes ''1213'')) (hd (bytes ''226''))
     \<and> (\<exists>c1'. getPossibleCombinations init_cache (bytes ''1213'') = Some (Returns ((5, None), c1')))
     \<and> (\<exists>c2'. getPossibleCombinations init_cache (bytes ''226'') = Some (Returns ((3, None), c2')))
     \<and> (\<exists>c3'. getPossibleCombinations init_cache (bytes ''1213'' @ bytes ''226'')
            = Some (Returns ((15, None), c3')))"
proof -
  have r: "reachable init_cache"
    by (rule reachable.initial)
  have n: "bytes ''1213'' \<noteq> []" "bytes ''226'' \<noteq> []"
    and l: "length (bytes ''1213'' @ bytes ''226'') < 2 ^ 63"
    by (simp_all add: bytes_def)
  have v: "spec_validate (bytes ''1213'') = None" "spec_validate (bytes ''226'') = None"
      "spec_validate (bytes ''1213'' @ bytes ''226'') = None"
    by code_simp+
  have a: "\<not> spec_ambiguous (last (bytes ''1213'')) (hd (bytes ''226''))"
    by code_simp
  have e1: "getPossibleCombinations init_cache (bytes ''1213'')
      = Some (Returns ((5, None), \<lparr>f = [0, 1, 1, 2, 3, 5], maxFib = 6\<rparr>))"
    by code_simp
  have e2: "getPossibleCombinations init_cache (bytes ''226'')
      = Some (Returns ((3, None), \<lparr>f = [0, 1, 1, 2, 3], maxFib = 5\<rparr>))"
    by code_simp
  from multiplicative_across_boundary [OF r r r n l v a] e1 e2
  have "\<exists>c3'. getPossibleCombinations init_cache (bytes ''1213'' @ bytes ''226'')
            = Some (Returns ((15, None), c3'))"
    by auto
  with r n l v a e1 e2 show ?thesis
    by blast
qed

section \<open>The count against the decodings\<close>

lemma is_code_cases: "is_code s \<Longrightarrow> (\<exists>a. s = [a]) \<or> (\<exists>a b. s = [a, b])"
  by (erule is_code.elims) auto

lemma decodings_Nil: "decodings [] = {[]}"
proof -
  have "segs = []" if "concat segs = []" "list_all is_code segs" for segs
  proof (cases segs)
    case Nil
    then show ?thesis .
  next
    case (Cons s ss)
    with that have "s = []" "is_code s"
      by simp_all
    then show ?thesis by simp
  qed
  then show ?thesis
    by (auto simp: decodings_def)
qed

lemma decodings_Cons:
  "decodings (a # r) =
     (if is_code [a] then (#) [a] ` decodings r else {})
     \<union> (case r of [] \<Rightarrow> {} | b # r' \<Rightarrow> if is_code [a, b] then (#) [a, b] ` decodings r' else {})"
  (is "?L = ?R")
proof (rule set_eqI, rule iffI)
  fix segs
  assume "segs \<in> ?L"
  then have c: "concat segs = a # r" and l: "list_all is_code segs"
    by (simp_all add: decodings_def)
  from c obtain s ss where segs: "segs = s # ss"
    by (cases segs) auto
  from l segs have s: "is_code s" and ss: "list_all is_code ss"
    by simp_all
  from is_code_cases [OF s] show "segs \<in> ?R"
  proof (elim disjE exE)
    fix x
    assume sx: "s = [x]"
    with c segs have "x = a" "concat ss = r"
      by simp_all
    with s sx ss segs show ?thesis
      by (simp add: decodings_def)
  next
    fix x y
    assume sxy: "s = [x, y]"
    with c segs have "x = a" "y # concat ss = r"
      by simp_all
    with s sxy ss segs show ?thesis
      by (auto simp: decodings_def)
  qed
next
  fix segs
  assume "segs \<in> ?R"
  then show "segs \<in> ?L"
    by (auto simp: decodings_def split: if_splits list.splits)
qed

lemma decode_list_correct: "set (decode_list p) = decodings p"
proof (induction p rule: decode_list.induct)
  case 1
  show ?case by (simp add: decodings_Nil)
next
  case (2 a)
  show ?case by (simp add: decodings_Cons decodings_Nil)
next
  case (3 a b r)
  then show ?case
    by (simp add: decodings_Cons [of a] del: is_code.simps)
qed

lemma decode_list_110: "decode_list (bytes ''110'') = [[[0x31], [0x31, 0x30]]]"
  by code_simp

text \<open>
  C1, at the input "110". The input passes validation, and \<open>getPossibleCombinations\<close>
  returns 2: the pair 11 opens a cluster of length 1, and the pair 10, which is not
  ambiguous, multiplies \<open>fibonacci 3 = 2\<close> in. But "110" has one decoding only, the cut
  "1", "10" (the letters A, J): the zero takes the second '1', so the pair 11 cannot
  be read as one code. The product over the clusters is not the number of decodings
  when a '0' follows an ambiguous pair.
\<close>

theorem cluster_before_zero_overcounts:
  "spec_validate (bytes ''110'') = None
     \<and> getPossibleCombinations init_cache (bytes ''110'')
         = Some (Returns ((2, None), \<lparr>f = [0, 1, 1, 2], maxFib = 4\<rparr>))
     \<and> decodings (bytes ''110'') = {[[0x31], [0x31, 0x30]]}
     \<and> card (decodings (bytes ''110'')) = 1"
proof -
  have "spec_validate (bytes ''110'') = None"
    by code_simp
  moreover have "getPossibleCombinations init_cache (bytes ''110'')
         = Some (Returns ((2, None), \<lparr>f = [0, 1, 1, 2], maxFib = 4\<rparr>))"
    by code_simp
  moreover have "decodings (bytes ''110'') = {[[0x31], [0x31, 0x30]]}"
    using decode_list_correct [of "bytes ''110''"] by (simp add: decode_list_110)
  ultimately show ?thesis
    by simp
qed

end
